theory Spec2Isabelle
  imports Main "HOL-Library.Word"
begin

unbundle bit_operations_syntax

section \<open>Bytes, text and the standard-library helpers the codec calls\<close>

text \<open>
  Go's \<open>[]byte\<close> and \<open>string\<close> are both sequences of 8-bit values; the conversions
  between them copy the bytes unchanged. Both are modelled as lists of 8-bit words.
\<close>

type_synonym byte = "8 word"

definition byte_of_char :: "char \<Rightarrow> byte" where
  "byte_of_char c = of_nat (of_char c)"

definition bytes :: "string \<Rightarrow> byte list" where
  "bytes s = map byte_of_char s"

subsection \<open>encoding/hex\<close>

text \<open>\<open>hextable\<close> of encoding/hex: the lower-case digits.\<close>

definition hextable :: "byte list" where
  "hextable = bytes ''0123456789abcdef''"

text \<open>\<open>hex.EncodeToString\<close>: two digits per byte, high nibble first.\<close>

definition hex_EncodeToString :: "byte list \<Rightarrow> byte list" where
  "hex_EncodeToString src =
     concat (map (\<lambda>v. [hextable ! unat (drop_bit 4 v), hextable ! unat (v AND 0x0f)]) src)"

text \<open>\<open>fromHexChar\<close>: digits of either case are accepted.\<close>

definition fromHexChar :: "byte \<Rightarrow> byte option" where
  "fromHexChar c =
     (if 0x30 \<le> c \<and> c \<le> 0x39 then Some (c - 0x30)
      else if 0x61 \<le> c \<and> c \<le> 0x66 then Some (c - 0x61 + 10)
      else if 0x41 \<le> c \<and> c \<le> 0x46 then Some (c - 0x41 + 10)
      else None)"

datatype hex_error = InvalidByteError byte | ErrLength

text \<open>
  \<open>hex.DecodeString\<close>: pairs of digits are decoded from the left; the first bad digit is
  reported, and an odd length is reported only once every digit before it was good.
\<close>

fun hex_DecodeString :: "byte list \<Rightarrow> hex_error + byte list" where
  "hex_DecodeString [] = Inr []"
| "hex_DecodeString [p] =
     (case fromHexChar p of None \<Rightarrow> Inl (InvalidByteError p) | Some a \<Rightarrow> Inl ErrLength)"
| "hex_DecodeString (p # q # rest) =
     (case fromHexChar p of
        None \<Rightarrow> Inl (InvalidByteError p)
      | Some a \<Rightarrow>
          (case fromHexChar q of
             None \<Rightarrow> Inl (InvalidByteError q)
           | Some b \<Rightarrow>
               (case hex_DecodeString rest of
                  Inl e \<Rightarrow> Inl e
                | Inr ds \<Rightarrow> Inr ((push_bit 4 a OR b) # ds))))"

subsection \<open>strings.ToUpper\<close>

text \<open>
  The codec applies \<open>strings.ToUpper\<close> only to the output of \<open>hex.EncodeToString\<close>,
  which is ASCII; on ASCII it maps the letters a..z to A..Z and keeps every other byte.
\<close>

definition upper_byte :: "byte \<Rightarrow> byte" where
  "upper_byte c = (if 0x61 \<le> c \<and> c \<le> 0x7A then c - 0x20 else c)"

definition strings_ToUpper :: "byte list \<Rightarrow> byte list" where
  "strings_ToUpper s = map upper_byte s"

subsection \<open>strconv.ParseUint, base 16, bit size 32\<close>

datatype num_error = ErrSyntax | ErrRange

definition lower :: "byte \<Rightarrow> byte" where
  "lower c = c OR 0x20"

text \<open>\<open>cutoff\<close> is \<open>maxUint64/16 + 1\<close>, \<open>maxVal\<close> is \<open>1<<32 - 1\<close>.\<close>

definition cutoff :: nat where
  "cutoff = (2 ^ 64 - 1) div 16 + 1"

definition maxVal :: nat where
  "maxVal = 2 ^ 32 - 1"

text \<open>
  The value of one character in the digit loop of \<open>ParseUint\<close>: a decimal digit, or a
  letter of either case counted from 10 (\<open>lower\<close> sets the case bit).
\<close>

definition digit_value :: "byte \<Rightarrow> byte option" where
  "digit_value c =
     (if 0x30 \<le> c \<and> c \<le> 0x39 then Some (c - 0x30)
      else if 0x61 \<le> lower c \<and> lower c \<le> 0x7A then Some (lower c - 0x61 + 10)
      else None)"

text \<open>
  The digit loop of \<open>ParseUint\<close>. The accumulator is a \<open>uint64\<close>: its arithmetic is
  written with the wrap-around at \<open>2 ^ 64\<close>. The value is returned together with the
  error, as Go does: 0 with a syntax error, the maximum with a range error.
\<close>

fun parse_loop :: "nat \<Rightarrow> byte list \<Rightarrow> nat \<times> num_error option" where
  "parse_loop n [] = (n, None)"
| "parse_loop n (c # cs) =
     (case digit_value c of
        None \<Rightarrow> (0, Some ErrSyntax)
      | Some d \<Rightarrow>
          if d \<ge> 16 then (0, Some ErrSyntax)
          else if n \<ge> cutoff then (maxVal, Some ErrRange)
          else
            (let m = (n * 16) mod 2 ^ 64;
                 n1 = (m + unat d) mod 2 ^ 64
             in if n1 < m \<or> n1 > maxVal then (maxVal, Some ErrRange)
                else parse_loop n1 cs))"

definition ParseUint :: "byte list \<Rightarrow> nat \<times> num_error option" where
  "ParseUint s = (if s = [] then (0, Some ErrSyntax) else parse_loop 0 s)"

subsection \<open>fmt.Sprintf with the verb \<open>%08X\<close>\<close>

definition udigits :: "byte list" where
  "udigits = bytes ''0123456789ABCDEF''"

text \<open>The digits of \<open>u\<close> in base 16, upper case, most significant first.\<close>

function fmt_X :: "nat \<Rightarrow> byte list" where
  "fmt_X u = (if u \<ge> 16 then fmt_X (u div 16) @ [udigits ! (u mod 16)] else [udigits ! u])"
  by pat_completeness auto
termination
  by (relation "measure (\<lambda>u. u)") auto

declare fmt_X.simps [simp del]

text \<open>Width 8 with the zero flag: zeros are put in front until there are 8 characters.\<close>

definition fmt_08X :: "nat \<Rightarrow> byte list" where
  "fmt_08X u = (let ds = fmt_X u in replicate (8 - length ds) 0x30 @ ds)"

section \<open>Session identifiers (philips/message.go)\<close>

type_synonym SessionID = "32 word"

definition checksumLen :: nat where
  "checksumLen = 32"

definition magicWord :: "byte list" where
  "magicWord = bytes ''JiangPan''"

text \<open>\<open>ParseID\<close>: at most the first 8 bytes are parsed; the error of \<open>ParseUint\<close> is dropped.\<close>

definition ParseID :: "byte list \<Rightarrow> SessionID" where
  "ParseID data =
     (let data' = (if length data > 8 then take 8 data else data)
      in of_nat (fst (ParseUint data')))"

definition Hex :: "SessionID \<Rightarrow> byte list" where
  "Hex sid = fmt_08X (unat sid)"

section \<open>The cryptographic primitives of the standard library\<close>

text \<open>
  \<open>md5.Sum\<close>, \<open>sha256.Sum256\<close> and the AES block operations belong to Go's standard
  library, not to this repository. The codec is modelled over any implementation of them:
  the digests as functions from bytes to bytes, the block cipher as functions of a key and
  one block.
\<close>

record primitives =
  md5_Sum :: "byte list \<Rightarrow> byte list"
  sha256_Sum256 :: "byte list \<Rightarrow> byte list"
  aes_Encrypt :: "byte list \<Rightarrow> byte list \<Rightarrow> byte list"
  aes_Decrypt :: "byte list \<Rightarrow> byte list \<Rightarrow> byte list"

text \<open>
  What the Go types and the block cipher guarantee: \<open>md5.Sum\<close> returns a \<open>[16]byte\<close>,
  \<open>sha256.Sum256\<close> a \<open>[32]byte\<close>, and under a 16-byte key the AES block operations map
  16-byte blocks to 16-byte blocks and decryption undoes encryption.
\<close>

definition primitives_ok :: "primitives \<Rightarrow> bool" where
  "primitives_ok P \<longleftrightarrow>
     (\<forall>m. length (md5_Sum P m) = 16) \<and>
     (\<forall>m. length (sha256_Sum256 P m) = 32) \<and>
     (\<forall>k b. length k = 16 \<and> length b = 16 \<longrightarrow>
        length (aes_Encrypt P k b) = 16 \<and> length (aes_Decrypt P k b) = 16 \<and>
        aes_Decrypt P k (aes_Encrypt P k b) = b)"

text \<open>
  Every error value and every panic the codec and the device client can end in.
  \<open>ErrUnableToDecrypt\<close> and \<open>ErrUnableToEncrypt\<close> wrap the error of \<open>aes.NewCipher\<close>;
  the two \<open>Panic\<close> values are the panics of crypto/cipher's CBC mode.
\<close>

datatype failure =
    KeySizeError nat
  | ErrDecodingHex hex_error
  | ErrTooFewBytes
  | ErrUnableToDecrypt failure
  | ErrUnableToEncrypt failure
  | ErrMarshal
  | ErrTransport
  | ErrUnmarshal
  | ErrDidNotManage
  | PanicIVLength
  | PanicNotFullBlocks

fun is_panic :: "failure \<Rightarrow> bool" where
  "is_panic PanicIVLength = True"
| "is_panic PanicNotFullBlocks = True"
| "is_panic _ = False"

text \<open>The spec's FormatError: a frame that is too short, not hexadecimal or of odd length.\<close>

fun is_FormatError :: "failure \<Rightarrow> bool" where
  "is_FormatError (ErrDecodingHex _) = True"
| "is_FormatError ErrTooFewBytes = True"
| "is_FormatError _ = False"

text \<open>\<open>aes.NewCipher\<close>: only keys of 16, 24 or 32 bytes are accepted.\<close>

definition aes_NewCipher :: "byte list \<Rightarrow> failure + byte list" where
  "aes_NewCipher key =
     (if length key = 16 \<or> length key = 24 \<or> length key = 32 then Inr key
      else Inl (KeySizeError (length key)))"

definition BlockSize :: nat where
  "BlockSize = 16"

definition xor_bytes :: "byte list \<Rightarrow> byte list \<Rightarrow> byte list" where
  "xor_bytes a b = map2 (XOR) a b"

text \<open>
  The block loops of \<open>CryptBlocks\<close> in CBC mode: each plaintext block is xor-ed with the
  previous ciphertext block (the IV for the first) and then encrypted; decryption undoes it.
\<close>

function cbc_encrypt_blocks :: "(byte list \<Rightarrow> byte list) \<Rightarrow> byte list \<Rightarrow> byte list \<Rightarrow> byte list" where
  "cbc_encrypt_blocks E iv src =
     (if length src > 0
      then (let c = E (xor_bytes (take BlockSize src) iv)
            in c @ cbc_encrypt_blocks E c (drop BlockSize src))
      else [])"
  by pat_completeness auto
termination
  by (relation "measure (\<lambda>(E, iv, src). length src)") (auto simp: BlockSize_def)

function cbc_decrypt_blocks :: "(byte list \<Rightarrow> byte list) \<Rightarrow> byte list \<Rightarrow> byte list \<Rightarrow> byte list" where
  "cbc_decrypt_blocks D iv src =
     (if length src > 0
      then xor_bytes (D (take BlockSize src)) iv
           @ cbc_decrypt_blocks D (take BlockSize src) (drop BlockSize src)
      else [])"
  by pat_completeness auto
termination
  by (relation "measure (\<lambda>(D, iv, src). length src)") (auto simp: BlockSize_def)

declare cbc_encrypt_blocks.simps [simp del]
declare cbc_decrypt_blocks.simps [simp del]

text \<open>
  \<open>cipher.NewCBCEncrypter(block, iv).CryptBlocks(d, data)\<close> and its decrypting twin:
  the constructor panics unless the IV is one block long, \<open>CryptBlocks\<close> panics unless
  the input is a whole number of blocks.
\<close>

definition cbc_CryptBlocks ::
  "(byte list \<Rightarrow> byte list \<Rightarrow> byte list) \<Rightarrow> byte list \<Rightarrow> byte list \<Rightarrow> failure + byte list" where
  "cbc_CryptBlocks blocks iv data =
     (if length iv \<noteq> BlockSize then Inl PanicIVLength
      else if length data mod BlockSize \<noteq> 0 then Inl PanicNotFullBlocks
      else Inr (blocks iv data))"

section \<open>The message codec (philips/message.go)\<close>

definition keyIV :: "primitives \<Rightarrow> SessionID \<Rightarrow> byte list \<times> byte list" where
  "keyIV P sid =
     (let keyAndIV = md5_Sum P (magicWord @ Hex sid)
      in (strings_ToUpper (hex_EncodeToString (take 8 keyAndIV)),
          strings_ToUpper (hex_EncodeToString (drop 8 keyAndIV))))"

definition Decrypt :: "primitives \<Rightarrow> SessionID \<Rightarrow> byte list \<Rightarrow> failure + byte list" where
  "Decrypt P sid data =
     (let (key, iv) = keyIV P sid
      in case aes_NewCipher key of
           Inl err \<Rightarrow> Inl err
         | Inr block \<Rightarrow> cbc_CryptBlocks (cbc_decrypt_blocks (aes_Decrypt P block)) iv data)"

definition Encrypt :: "primitives \<Rightarrow> SessionID \<Rightarrow> byte list \<Rightarrow> failure + byte list" where
  "Encrypt P sid data =
     (let (key, iv) = keyIV P sid
      in case aes_NewCipher key of
           Inl err \<Rightarrow> Inl err
         | Inr block \<Rightarrow> cbc_CryptBlocks (cbc_encrypt_blocks (aes_Encrypt P block)) iv data)"

text \<open>
  The loop at the end of \<open>DecodeMessage\<close>: while the output is not empty and its last
  byte is between 1 and 16, that byte is cut off.
\<close>

function strip_padding :: "byte list \<Rightarrow> byte list" where
  "strip_padding out =
     (if length out > 0
      then (if out ! (length out - 1) < 1 \<or> out ! (length out - 1) > 16 then out
            else strip_padding (take (length out - 1) out))
      else out)"
  by pat_completeness auto
termination
  by (relation "measure length") auto

declare strip_padding.simps [simp del]

definition DecodeMessage :: "primitives \<Rightarrow> byte list \<Rightarrow> failure + byte list" where
  "DecodeMessage P msg =
     (let sess = ParseID msg
      in case hex_DecodeString msg of
           Inl err \<Rightarrow> Inl (ErrDecodingHex err)
         | Inr data \<Rightarrow>
             if length data < 4 + checksumLen then Inl ErrTooFewBytes
             else
               (let data1 = drop 4 data;
                    data2 = take (length data1 - checksumLen) data1
                in case Decrypt P sess data2 of
                     Inl err \<Rightarrow> (if is_panic err then Inl err else Inl (ErrUnableToDecrypt err))
                   | Inr out \<Rightarrow> Inr (strip_padding out)))"

text \<open>The padding loop of \<open>EncodeMessage\<close>: \<open>for i := 0; i < padding; i++\<close>.\<close>

function append_padding :: "nat \<Rightarrow> nat \<Rightarrow> byte list \<Rightarrow> byte list" where
  "append_padding i padding msg =
     (if i < padding then append_padding (i + 1) padding (msg @ [of_nat padding]) else msg)"
  by pat_completeness auto
termination
  by (relation "measure (\<lambda>(i, padding, msg). padding - i)") auto

declare append_padding.simps [simp del]

definition EncodeMessage :: "primitives \<Rightarrow> SessionID \<Rightarrow> byte list \<Rightarrow> failure + byte list" where
  "EncodeMessage P sess msg =
     (if length msg = 0 then Inl ErrTooFewBytes
      else
        (let padding = (16 - (length msg mod 16)) mod 16;
             msg' = append_padding 0 padding msg
         in case Encrypt P sess msg' of
              Inl err \<Rightarrow> (if is_panic err then Inl err else Inl (ErrUnableToEncrypt err))
            | Inr out \<Rightarrow>
                (let outMsg = Hex sess @ strings_ToUpper (hex_EncodeToString out);
                     shaSum = sha256_Sum256 P outMsg
                 in Inr (outMsg @ strings_ToUpper (hex_EncodeToString shaSum)))))"

section \<open>The state model (philips/message.go, second part)\<close>

text \<open>\<open>AirQuality\<close> is an \<open>int\<close>; \<open>ToHemtjanst\<close> maps it to a level from 1 to 5.\<close>

definition AirQuality_ToHemtjanst :: "int \<Rightarrow> string" where
  "AirQuality_ToHemtjanst a =
     (if a = 1 then ''1''
      else if a = 2 \<or> a = 3 then ''2''
      else if a = 4 \<or> a = 5 \<or> a = 6 then ''3''
      else if a = 7 \<or> a = 8 \<or> a = 9 then ''4''
      else if a = 10 \<or> a = 11 \<or> a = 12 then ''5''
      else ''5'')"

section \<open>The device client (philips/device.go)\<close>

text \<open>
  Modelled from the spec: the method \<open>Increment\<close> of the session type, which
  \<open>New\<close> and \<open>Set\<close> call and whose declaration is not among the source files. The spec
  (Data Model) says the identifier is a 32-bit unsigned value mutated in place by
  \<open>increment()\<close>, and the source's comment on \<open>SessionID\<close> says it is incremented by one
  for every command; on a \<open>uint32\<close> the addition wraps.
\<close>

definition Increment :: "SessionID \<Rightarrow> SessionID" where
  "Increment s = s + 1"

text \<open>
  Of the fields of \<open>Device\<close> only the session (the field \<open>id\<close>) is state that the
  operations change; the connection is represented by what it answers.
\<close>

record Device =
  sid :: SessionID

text \<open>
  \<open>New\<close>: \<open>dial\<close> is the error of \<open>DialWithContext\<close>, if any, and \<open>sync\<close> what the post to
  /sys/dev/sync returns: an error or the payload of the response.
\<close>

definition New :: "failure option \<Rightarrow> failure + byte list \<Rightarrow> failure + Device" where
  "New dial sync =
     (case dial of
        Some err \<Rightarrow> Inl err
      | None \<Rightarrow>
          (case sync of
             Inl err \<Rightarrow> Inl err
           | Inr payload \<Rightarrow> Inr \<lparr>sid = Increment (ParseID payload)\<rparr>))"

text \<open>
  What one call of \<open>Set\<close> meets outside the client: the result of \<open>json.Marshal\<close> on the
  desired state, the answer of the control endpoint to a posted frame, and the result of
  \<open>json.Unmarshal\<close> of an acknowledgement into a map from strings to strings.
\<close>

record exchange =
  marshalled :: "failure + byte list"
  post :: "byte list \<Rightarrow> failure + byte list"
  unmarshal :: "byte list \<Rightarrow> failure + (string \<rightharpoonup> string)"

text \<open>A Go map read of a missing key gives the empty string.\<close>

definition map_get :: "(string \<rightharpoonup> string) \<Rightarrow> string \<Rightarrow> string" where
  "map_get m k = (case m k of None \<Rightarrow> [] | Some v \<Rightarrow> v)"

text \<open>
  \<open>Set\<close> returns its error (\<open>None\<close> for nil) and the device with the session it
  leaves. A panic inside \<open>EncodeMessage\<close> is passed on like an error: the session is not
  touched on that path either.
\<close>

definition Set :: "primitives \<Rightarrow> exchange \<Rightarrow> Device \<Rightarrow> failure option \<times> Device" where
  "Set P x d =
     (case marshalled x of
        Inl err \<Rightarrow> (Some err, d)
      | Inr data \<Rightarrow>
          (case EncodeMessage P (sid d) data of
             Inl err \<Rightarrow> (Some err, d)
           | Inr newMsg \<Rightarrow>
               (case post x newMsg of
                  Inl err \<Rightarrow> (Some err, d)
                | Inr resp \<Rightarrow>
                    (let d' = d\<lparr>sid := Increment (sid d)\<rparr>
                     in case unmarshal x resp of
                          Inl err \<Rightarrow> (Some err, d')
                        | Inr state \<Rightarrow>
                            if map_get state ''status'' \<noteq> ''success''
                            then (Some ErrDidNotManage, d')
                            else (None, d')))))"

text \<open>A sequence of calls of \<open>Set\<close> on one device, whatever each call returns.\<close>

fun Sets :: "primitives \<Rightarrow> exchange list \<Rightarrow> Device \<Rightarrow> Device" where
  "Sets P [] d = d"
| "Sets P (x # xs) d = Sets P xs (snd (Set P x d))"

text \<open>
  \<open>answered P x s\<close>: a call of \<open>Set\<close> under session \<open>s\<close> gets as far as a response of
  the control endpoint. \<open>n_answered P xs s\<close>: how many calls of a sequence that starts
  under session \<open>s\<close> do so, each of them moving the session on by one.
\<close>

definition answered :: "primitives \<Rightarrow> exchange \<Rightarrow> SessionID \<Rightarrow> bool" where
  "answered P x s =
     (case marshalled x of
        Inl err \<Rightarrow> False
      | Inr data \<Rightarrow>
          (case EncodeMessage P s data of
             Inl err \<Rightarrow> False
           | Inr newMsg \<Rightarrow> (case post x newMsg of Inl err \<Rightarrow> False | Inr resp \<Rightarrow> True)))"

fun n_answered :: "primitives \<Rightarrow> exchange list \<Rightarrow> SessionID \<Rightarrow> nat" where
  "n_answered P [] s = 0"
| "n_answered P (x # xs) s =
     (if answered P x s then Suc (n_answered P xs (s + 1)) else n_answered P xs s)"

section \<open>The statements of the specification, in its own terms\<close>

text \<open>Upper-case hexadecimal text of a byte sequence: two digits per byte.\<close>

definition upper_hex :: "byte list \<Rightarrow> byte list" where
  "upper_hex bs = concat (map (\<lambda>v. [udigits ! (unat v div 16), udigits ! (unat v mod 16)]) bs)"

text \<open>The padding of the specification: \<open>pad\<close> bytes, each of value \<open>pad\<close>.\<close>

definition pad_len :: "byte list \<Rightarrow> nat" where
  "pad_len msg = (16 - length msg mod 16) mod 16"

definition padded :: "byte list \<Rightarrow> byte list" where
  "padded msg = msg @ replicate (pad_len msg) (of_nat (pad_len msg))"

text \<open>Stripping, said without a loop: the trailing run of bytes between 1 and 16 goes.\<close>

definition stripped :: "byte list \<Rightarrow> byte list" where
  "stripped out = rev (dropWhile (\<lambda>b. 1 \<le> b \<and> b \<le> 16) (rev out))"

text \<open>
  Decoding as the specification words it: the session is read from the first 8
  characters, the \<^emph>\<open>remainder\<close> of the frame is hex-decoded and must give at least
  4 + 32 bytes, and the first 4 and the last 32 of those are dropped.
\<close>

definition DecodeMessage_by_remainder :: "primitives \<Rightarrow> byte list \<Rightarrow> failure + byte list" where
  "DecodeMessage_by_remainder P msg =
     (let sess = ParseID (take 8 msg)
      in case hex_DecodeString (drop 8 msg) of
           Inl err \<Rightarrow> Inl (ErrDecodingHex err)
         | Inr data \<Rightarrow>
             if length data < 4 + 32 then Inl ErrTooFewBytes
             else
               (case Decrypt P sess (take (length data - 4 - 32) (drop 4 data)) of
                  Inl err \<Rightarrow> (if is_panic err then Inl err else Inl (ErrUnableToDecrypt err))
                | Inr out \<Rightarrow> Inr (strip_padding out)))"

text \<open>Decoding what encoding returns.\<close>

definition roundtrip :: "primitives \<Rightarrow> SessionID \<Rightarrow> byte list \<Rightarrow> failure + byte list" where
  "roundtrip P s msg =
     (case EncodeMessage P s msg of Inl err \<Rightarrow> Inl err | Inr frame \<Rightarrow> DecodeMessage P frame)"

section \<open>A sample implementation of the primitives\<close>

text \<open>
  To run the codec on concrete inputs the primitives need values. This sample is not
  MD5, SHA-256 or AES: its digests repeat the sum of the input bytes and its block cipher
  xors the block with the key. It has the properties \<open>primitives_ok\<close> asks for, which is
  all the results below use.
\<close>

definition sample :: primitives where
  "sample =
     \<lparr>md5_Sum = (\<lambda>m. replicate 16 (sum_list m)),
      sha256_Sum256 = (\<lambda>m. replicate 32 (sum_list m)),
      aes_Encrypt = (\<lambda>k b. xor_bytes b k),
      aes_Decrypt = (\<lambda>k b. xor_bytes b k)\<rparr>"

text \<open>
  Sample exchanges: a call that is acknowledged with success, one acknowledged with
  another status, one whose acknowledgement does not parse, and one whose post returns
  an error (no response within the time limit, say).
\<close>

definition ack_success :: exchange where
  "ack_success = \<lparr>marshalled = Inr (bytes ''{}''), post = (\<lambda>frame. Inr (bytes ''ok'')),
                  unmarshal = (\<lambda>resp. Inr [''status'' \<mapsto> ''success''])\<rparr>"

definition ack_failed :: exchange where
  "ack_failed = \<lparr>marshalled = Inr (bytes ''{}''), post = (\<lambda>frame. Inr (bytes ''no'')),
                 unmarshal = (\<lambda>resp. Inr [''status'' \<mapsto> ''failed''])\<rparr>"

definition ack_garbled :: exchange where
  "ack_garbled = \<lparr>marshalled = Inr (bytes ''{}''), post = (\<lambda>frame. Inr (bytes ''??'')),
                  unmarshal = (\<lambda>resp. Inl ErrUnmarshal)\<rparr>"

definition post_fails :: exchange where
  "post_fails = \<lparr>marshalled = Inr (bytes ''{}''), post = (\<lambda>frame. Inl ErrTransport),
                 unmarshal = (\<lambda>resp. Inl ErrUnmarshal)\<rparr>"

section \<open>Properties\<close>

subsection \<open>Parsing and printing session identifiers\<close>

lemma byte_all: "(\<forall>c::byte. P c) = (\<forall>n<256. P (of_nat n))"
proof
  assume "\<forall>c. P c" then show "\<forall>n<256. P (of_nat n)" by simp
next
  assume a: "\<forall>n<256. P (of_nat n)"
  show "\<forall>c. P c"
  proof
    fix c :: byte
    have "unat c < 256" using unsigned_less [of c] by simp
    then have "P (of_nat (unat c))" using a by blast
    then show "P c" by simp
  qed
qed

lemma all_less_numeral:
  "(\<forall>n<numeral k. Q n) = (Q (pred_numeral k) \<and> (\<forall>n<pred_numeral k. Q n))"
  by (metis less_Suc_eq numeral_eq_Suc)

lemma digit_value_fromHexChar:
  "\<forall>c. (case digit_value c of None \<Rightarrow> None | Some d \<Rightarrow> if d \<ge> 16 then None else Some d)
       = fromHexChar c"
  unfolding byte_all
  by (simp add: all_less_numeral digit_value_def fromHexChar_def lower_def word_le_nat_alt)

lemma digit_value_bad:
  "fromHexChar c = None \<Longrightarrow> digit_value c = None \<or> (\<exists>d. digit_value c = Some d \<and> d \<ge> 16)"
  using digit_value_fromHexChar [rule_format, of c]
  by (auto split: option.splits if_splits)

lemma digit_value_good:
  "fromHexChar c = Some v \<Longrightarrow> digit_value c = Some v \<and> v < 16"
  using digit_value_fromHexChar [rule_format, of c]
  by (auto split: option.splits if_splits)

lemma parse_step:
  assumes "digit_value c = Some d" "d < 16" "n * 16 + unat d < 2 ^ 32"
  shows "parse_loop n (c # cs) = parse_loop (n * 16 + unat d) cs"
proof -
  have "n < cutoff" using assms(3) by (simp add: cutoff_def)
  moreover have "(n * 16) mod 2 ^ 64 = n * 16" using assms(3) by simp
  moreover have "(n * 16 + unat d) mod 2 ^ 64 = n * 16 + unat d" using assms(3) by simp
  moreover have "n * 16 + unat d \<le> maxVal" using assms(3) by (simp add: maxVal_def)
  moreover have "\<not> 16 \<le> d" using assms(2) by (simp add: not_le)
  ultimately show ?thesis using assms(1) by (simp add: Let_def)
qed

lemma pow16_step:
  assumes "n < 16 ^ k" "d < 16"
  shows "n * 16 + d < (16::nat) ^ Suc k"
proof -
  have "Suc n \<le> 16 ^ k" using assms(1) by simp
  then have "Suc n * 16 \<le> 16 ^ k * 16" by (rule mult_le_mono1)
  then show ?thesis using assms(2) by simp
qed

lemma pow16_le: "k \<le> 8 \<Longrightarrow> (16::nat) ^ k \<le> 2 ^ 32"
proof -
  assume "k \<le> 8"
  then have "(16::nat) ^ k \<le> 16 ^ 8" by (intro power_increasing) simp_all
  then show ?thesis by simp
qed

lemma parse_loop_syntax:
  assumes "\<exists>c\<in>set cs. fromHexChar c = None" "n < 16 ^ k" "k + length cs \<le> 8"
  shows "parse_loop n cs = (0, Some ErrSyntax)"
  using assms
proof (induction cs arbitrary: n k)
  case Nil
  then show ?case by simp
next
  case (Cons c cs)
  show ?case
  proof (cases "fromHexChar c")
    case None
    then show ?thesis using digit_value_bad [of c] by auto
  next
    case (Some v)
    then have dv: "digit_value c = Some v" "v < 16" using digit_value_good by blast+
    have ud: "unat v < 16" using dv(2) by (simp add: word_less_nat_alt)
    have bad: "\<exists>c\<in>set cs. fromHexChar c = None" using Cons.prems(1) Some by auto
    have lt: "n * 16 + unat v < 16 ^ Suc k" using pow16_step [OF Cons.prems(2) ud] .
    have "Suc k \<le> 8" using Cons.prems(3) by simp
    then have "n * 16 + unat v < 2 ^ 32" using lt pow16_le [of "Suc k"] by linarith
    then have "parse_loop n (c # cs) = parse_loop (n * 16 + unat v) cs"
      using parse_step [OF dv] by simp
    also have "\<dots> = (0, Some ErrSyntax)"
      using Cons.IH [OF bad lt] Cons.prems(3) by simp
    finally show ?thesis .
  qed
qed

lemma ParseID_take: "ParseID data = ParseID (take 8 data)"
  by (simp add: ParseID_def)

text \<open>
  C8. \<open>ParseID\<close> looks only at the first 8 bytes of its input, and when these are
  empty or contain a byte that is not a hexadecimal digit the result is the zero
  identifier. \<open>ParseID\<close> has no error result: it returns an identifier for every input.
\<close>

theorem ParseID_lenient:
  "ParseID data = ParseID (take 8 data) \<and>
   (take 8 data = [] \<or> (\<exists>c\<in>set (take 8 data). fromHexChar c = None) \<longrightarrow> ParseID data = 0)"
proof (intro conjI impI)
  show "ParseID data = ParseID (take 8 data)" by (simp add: ParseID_def)
next
  assume a: "take 8 data = [] \<or> (\<exists>c\<in>set (take 8 data). fromHexChar c = None)"
  have "ParseUint (take 8 data) = (0, Some ErrSyntax)"
  proof (cases "take 8 data = []")
    case True
    then show ?thesis by (simp add: ParseUint_def)
  next
    case False
    then have "\<exists>c\<in>set (take 8 data). fromHexChar c = None" using a by simp
    then have "parse_loop 0 (take 8 data) = (0, Some ErrSyntax)"
      by (rule parse_loop_syntax [where k = 0]) simp_all
    then show ?thesis using False by (simp add: ParseUint_def)
  qed
  moreover have "\<not> 8 < length data \<Longrightarrow> take 8 data = data" by simp
  ultimately show "ParseID data = 0" by (auto simp: ParseID_def)
qed

theorem ParseID_lenient_witness:
  "ParseID (bytes ''12zz'') = ParseID (take 8 (bytes ''12zz'')) \<and> ParseID (bytes ''12zz'') = 0"
  using ParseID_lenient [of "bytes ''12zz''"]
  by (simp add: bytes_def byte_of_char_def fromHexChar_def)


lemma udigits_value:
  "\<forall>d<16. digit_value (udigits ! d) = Some (of_nat d) \<and> (of_nat d :: byte) < 16
     \<and> unat (of_nat d :: byte) = d"
  by (simp add: all_less_numeral udigits_def bytes_def byte_of_char_def digit_value_def lower_def
      word_le_nat_alt word_less_nat_alt)

lemma parse_udigit:
  assumes "d < 16" "n * 16 + d < 2 ^ 32"
  shows "parse_loop n (udigits ! d # cs) = parse_loop (n * 16 + d) cs"
  using parse_step [of "udigits ! d" "of_nat d" n cs] udigits_value assms by simp

lemma mult16_add_less: "(x::nat) * 16 + y < z \<Longrightarrow> x < z"
  by arith

lemma parse_fmt_X:
  "n * 16 ^ length (fmt_X u) + u < 2 ^ 32 \<Longrightarrow>
   parse_loop n (fmt_X u @ rest) = parse_loop (n * 16 ^ length (fmt_X u) + u) rest"
proof (induction u arbitrary: n rest rule: fmt_X.induct)
  case (1 u)
  show ?case
  proof (cases "u \<ge> 16")
    case False
    then have f: "fmt_X u = [udigits ! u]" by (simp add: fmt_X.simps)
    show ?thesis using "1.prems" False parse_udigit [of u n rest] by (simp add: f)
  next
    case True
    let ?L = "length (fmt_X (u div 16))"
    have f: "fmt_X u = fmt_X (u div 16) @ [udigits ! (u mod 16)]"
      using True by (subst fmt_X.simps) simp
    have bound: "(n * 16 ^ ?L + u div 16) * 16 + u mod 16 < 2 ^ 32"
      using "1.prems" by (simp add: f algebra_simps)
    then have b': "n * 16 ^ ?L + u div 16 < 2 ^ 32" by (rule mult16_add_less)
    have "parse_loop n (fmt_X u @ rest)
            = parse_loop n (fmt_X (u div 16) @ (udigits ! (u mod 16) # rest))"
      by (simp add: f)
    also have "\<dots> = parse_loop (n * 16 ^ ?L + u div 16) (udigits ! (u mod 16) # rest)"
      using "1.IH" [OF True b'] .
    also have "\<dots> = parse_loop ((n * 16 ^ ?L + u div 16) * 16 + u mod 16) rest"
      using parse_udigit [OF _ bound] by simp
    also have "(n * 16 ^ ?L + u div 16) * 16 + u mod 16 = n * 16 ^ length (fmt_X u) + u"
      by (simp add: f algebra_simps)
    finally show ?thesis .
  qed
qed

lemma length_fmt_X: "u < 16 ^ k \<Longrightarrow> 0 < k \<Longrightarrow> length (fmt_X u) \<le> k"
proof (induction u arbitrary: k rule: fmt_X.induct)
  case (1 u)
  show ?case
  proof (cases "u \<ge> 16")
    case False
    then show ?thesis using "1.prems" by (simp add: fmt_X.simps)
  next
    case True
    obtain j where k: "k = Suc j" using "1.prems"(2) by (cases k) auto
    have "j \<noteq> 0" using True "1.prems"(1) k by (cases j) auto
    moreover have "u div 16 < 16 ^ j" using "1.prems"(1) k by (simp add: less_mult_imp_div_less)
    ultimately have "length (fmt_X (u div 16)) \<le> j" using "1.IH" [OF True] by simp
    then show ?thesis using True k by (subst fmt_X.simps) simp
  qed
qed

lemma parse_zeros: "parse_loop 0 (replicate j 0x30 @ rest) = parse_loop 0 rest"
proof (induction j)
  case 0
  show ?case by simp
next
  case (Suc j)
  have "parse_loop 0 (udigits ! 0 # (replicate j 0x30 @ rest)) = parse_loop 0 (replicate j 0x30 @ rest)"
    using parse_udigit [of 0 0] by simp
  moreover have "udigits ! 0 = (0x30 :: byte)" by (simp add: udigits_def bytes_def byte_of_char_def)
  ultimately show ?case using Suc by simp
qed

lemma length_Hex: "length (Hex s) = 8"
proof -
  have "unat s < 2 ^ 32" using unsigned_less [of s] by simp
  then have "unat s < 16 ^ 8" by simp
  then have "length (fmt_X (unat s)) \<le> 8" by (rule length_fmt_X) simp
  then show ?thesis by (simp add: Hex_def fmt_08X_def Let_def)
qed

lemma ParseUint_Hex: "ParseUint (Hex s) = (unat s, None)"
proof -
  have u: "unat s < 2 ^ 32" using unsigned_less [of s] by simp
  have ne: "Hex s \<noteq> []" using length_Hex [of s] by auto
  have "parse_loop 0 (Hex s) = parse_loop 0 (fmt_X (unat s) @ [])"
    by (simp add: Hex_def fmt_08X_def Let_def parse_zeros)
  also have "\<dots> = parse_loop (0 * 16 ^ length (fmt_X (unat s)) + unat s) []"
    by (rule parse_fmt_X) (use u in simp)
  finally show ?thesis using ne by (simp add: ParseUint_def)
qed

lemma set_fmt_X: "set (fmt_X u) \<subseteq> set udigits"
proof (induction u rule: fmt_X.induct)
  case (1 u)
  have len: "length udigits = 16" by (simp add: udigits_def bytes_def)
  show ?case
  proof (cases "u \<ge> 16")
    case False
    then show ?thesis using len by (simp add: fmt_X.simps)
  next
    case True
    have "udigits ! (u mod 16) \<in> set udigits" using len by simp
    then show ?thesis using True "1.IH" by (subst fmt_X.simps) simp
  qed
qed

lemma set_Hex: "set (Hex s) \<subseteq> set udigits"
proof -
  have "(0x30 :: byte) \<in> set udigits" by (simp add: udigits_def bytes_def byte_of_char_def)
  then show ?thesis using set_fmt_X [of "unat s"] by (auto simp: Hex_def fmt_08X_def Let_def)
qed

lemma ParseID_Hex_eq: "ParseID (Hex s) = s"
  by (simp add: ParseID_def length_Hex ParseUint_Hex)

text \<open>
  C10. Parsing the textual form of a session identifier gives the identifier back, and
  the textual form is always 8 characters, each an upper-case hexadecimal digit.
\<close>

theorem ParseID_Hex_roundtrip:
  "ParseID (Hex s) = s \<and> length (Hex s) = 8 \<and> set (Hex s) \<subseteq> set udigits"
  by (simp add: ParseID_Hex_eq length_Hex set_Hex)

text \<open>C9. The device's air-quality value 3 is normalised to the level "2".\<close>

theorem AirQuality_iaql_3: "AirQuality_ToHemtjanst 3 = ''2''"
  by (simp add: AirQuality_ToHemtjanst_def)

subsection \<open>Padding\<close>

lemma strip_padding_Nil: "strip_padding [] = []"
  by (simp add: strip_padding.simps)

lemma strip_padding_snoc:
  "strip_padding (xs @ [b]) = (if 1 \<le> b \<and> b \<le> 16 then strip_padding xs else xs @ [b])"
  by (subst strip_padding.simps) (auto simp: not_le not_less)

lemma strip_padding_replicate:
  "1 \<le> b \<Longrightarrow> b \<le> 16 \<Longrightarrow> strip_padding (xs @ replicate n b) = strip_padding xs"
proof (induction n)
  case 0
  show ?case by simp
next
  case (Suc n)
  have "xs @ replicate (Suc n) b = (xs @ replicate n b) @ [b]"
    by (simp add: replicate_append_same)
  then show ?case using Suc by (simp only: strip_padding_snoc) simp
qed

lemma strip_padding_keeps:
  "xs \<noteq> [] \<Longrightarrow> last xs < 1 \<or> last xs > 16 \<Longrightarrow> strip_padding xs = xs"
  by (cases xs rule: rev_cases) (auto simp: strip_padding_snoc)

lemma strip_padding_stripped: "strip_padding out = stripped out"
proof (induction out rule: rev_induct)
  case Nil
  show ?case by (simp add: strip_padding_Nil stripped_def)
next
  case (snoc b xs)
  then show ?case by (simp add: strip_padding_snoc stripped_def)
qed

lemma append_padding_eq:
  "append_padding i n msg = msg @ replicate (n - i) (of_nat n)"
proof (induction i n msg rule: append_padding.induct)
  case (1 i padding msg)
  show ?case
  proof (cases "i < padding")
    case False
    then show ?thesis by (simp add: append_padding.simps)
  next
    case True
    then have "padding - i = Suc (padding - (i + 1))" by simp
    then have "replicate (padding - i) (of_nat padding :: byte)
                 = of_nat padding # replicate (padding - (i + 1)) (of_nat padding)"
      by (simp only: replicate_Suc)
    then show ?thesis using True "1.IH" by (subst append_padding.simps) simp
  qed
qed

text \<open>
  C6. For a plaintext whose length is a multiple of 16, the stripping step of the decoder
  gives the same output for the plaintext alone and for the plaintext followed by a
  block of 16 bytes of value 0x10.
\<close>

theorem strip_spurious_block:
  "length p mod 16 = 0 \<Longrightarrow> strip_padding (p @ replicate 16 0x10) = strip_padding p"
  by (rule strip_padding_replicate) simp_all

theorem strip_spurious_block_witness:
  "length (bytes ''{pwr:1,om:t,cl:}'') mod 16 = 0 \<and>
   strip_padding (bytes ''{pwr:1,om:t,cl:}'' @ replicate 16 0x10)
     = strip_padding (bytes ''{pwr:1,om:t,cl:}'')"
  using strip_spurious_block [of "bytes ''{pwr:1,om:t,cl:}''"]
  by (simp add: bytes_def)

subsection \<open>Hexadecimal text\<close>

lemma hex_upper_byte:
  "\<forall>v::byte. [upper_byte (hextable ! unat (drop_bit 4 v)), upper_byte (hextable ! unat (v AND 0x0f))]
       = [udigits ! (unat v div 16), udigits ! (unat v mod 16)]"
  unfolding byte_all
  by (simp add: all_less_numeral hextable_def udigits_def bytes_def byte_of_char_def upper_byte_def
      word_le_nat_alt)

lemma ToUpper_hex: "strings_ToUpper (hex_EncodeToString bs) = upper_hex bs"
proof (induction bs)
  case Nil
  show ?case by (simp add: strings_ToUpper_def hex_EncodeToString_def upper_hex_def)
next
  case (Cons v bs)
  then show ?case
    using hex_upper_byte [rule_format, of v]
    by (simp add: strings_ToUpper_def hex_EncodeToString_def upper_hex_def)
qed

lemma length_upper_hex: "length (upper_hex bs) = 2 * length bs"
  by (induction bs) (simp_all add: upper_hex_def)

lemma unhex_byte:
  "\<forall>v::byte. fromHexChar (udigits ! (unat v div 16)) = Some (drop_bit 4 v) \<and>
       fromHexChar (udigits ! (unat v mod 16)) = Some (v AND 0x0f) \<and>
       push_bit 4 (drop_bit 4 v) OR (v AND 0x0f) = v"
  unfolding byte_all
  by (simp add: all_less_numeral udigits_def bytes_def byte_of_char_def fromHexChar_def
      word_le_nat_alt)

lemma hex_Decode_upper_hex:
  "hex_DecodeString (upper_hex bs @ rest) =
     (case hex_DecodeString rest of Inl e \<Rightarrow> Inl e | Inr r \<Rightarrow> Inr (bs @ r))"
proof (induction bs)
  case Nil
  show ?case by (simp add: upper_hex_def split: sum.splits)
next
  case (Cons v bs)
  have "upper_hex (v # bs) @ rest
          = udigits ! (unat v div 16) # udigits ! (unat v mod 16) # (upper_hex bs @ rest)"
    by (simp add: upper_hex_def)
  then show ?case
    using Cons unhex_byte [rule_format, of v] by (simp split: sum.splits)
qed

subsection \<open>Decoding hexadecimal text\<close>

lemma hex_Decode_length: "hex_DecodeString xs = Inr a \<Longrightarrow> length xs = 2 * length a"
  by (induction xs arbitrary: a rule: hex_DecodeString.induct)
     (auto split: option.splits sum.splits)

lemma hex_Decode_odd:
  "\<forall>c\<in>set zs. fromHexChar c \<noteq> None \<Longrightarrow> odd (length zs) \<Longrightarrow> hex_DecodeString zs = Inl ErrLength"
  by (induction zs rule: hex_DecodeString.induct) (auto split: option.splits sum.splits)

lemma hex_Decode_even:
  "\<forall>c\<in>set zs. fromHexChar c \<noteq> None \<Longrightarrow> even (length zs) \<Longrightarrow>
   \<exists>d. hex_DecodeString zs = Inr d \<and> length d = length zs div 2"
proof (induction zs rule: hex_DecodeString.induct)
  case 1
  show ?case by simp
next
  case (2 p)
  then show ?case by simp
next
  case (3 p q rest)
  obtain a b where ab: "fromHexChar p = Some a" "fromHexChar q = Some b"
    using "3.prems"(1) by auto
  have "\<exists>d. hex_DecodeString rest = Inr d \<and> length d = length rest div 2"
    using "3.IH" [OF ab] "3.prems" by simp
  then show ?case using ab by auto
qed

lemma hex_Decode_append:
  "hex_DecodeString xs = Inr a \<Longrightarrow>
   hex_DecodeString (xs @ ys) = (case hex_DecodeString ys of Inl e \<Rightarrow> Inl e | Inr d \<Rightarrow> Inr (a @ d))"
  by (induction xs arbitrary: a rule: hex_DecodeString.induct)
     (auto split: option.splits sum.splits)

lemma hex_Decode_take:
  "hex_DecodeString xs = Inr a \<Longrightarrow> hex_DecodeString (take (2 * n) xs) = Inr (take n a)"
proof (induction xs arbitrary: a n rule: hex_DecodeString.induct)
  case 1
  then show ?case by simp
next
  case (2 p)
  then show ?case by (simp split: option.splits)
next
  case (3 p q rest)
  show ?case
  proof (cases n)
    case 0
    then show ?thesis by simp
  next
    case (Suc m)
    then show ?thesis using 3 by (auto split: option.splits sum.splits)
  qed
qed

lemma hex_Decode_suffix:
  assumes "\<forall>c\<in>set ys. fromHexChar c \<noteq> None" "hex_DecodeString ys = Inr d"
  shows "hex_DecodeString (xs @ ys) =
           (case hex_DecodeString xs of Inl e \<Rightarrow> Inl e | Inr a \<Rightarrow> Inr (a @ d))"
proof (induction xs rule: hex_DecodeString.induct)
  case 1
  show ?case using assms(2) by simp
next
  case (2 p)
  have ev: "even (length ys)" using hex_Decode_length [OF assms(2)] by simp
  show ?case
  proof (cases "fromHexChar p")
    case None
    then show ?thesis by (cases ys) simp_all
  next
    case (Some a)
    have "\<forall>c\<in>set (p # ys). fromHexChar c \<noteq> None" using Some assms(1) by simp
    moreover have "odd (length (p # ys))" using ev by simp
    ultimately have "hex_DecodeString (p # ys) = Inl ErrLength" by (rule hex_Decode_odd)
    then show ?thesis using Some by simp
  qed
next
  case (3 p q rest)
  then show ?case by (auto split: option.splits sum.splits)
qed

subsection \<open>Cipher block chaining\<close>

lemma length_xor_bytes: "length (xor_bytes a b) = min (length a) (length b)"
  by (simp add: xor_bytes_def)

lemma xor_bytes_cancel: "length a = length b \<Longrightarrow> xor_bytes (xor_bytes a b) b = a"
  by (induction a b rule: list_induct2) (simp_all add: xor_bytes_def xor.assoc)

lemma cbc_roundtrip:
  "\<forall>b. length b = 16 \<longrightarrow> length (E b) = 16 \<and> D (E b) = b \<Longrightarrow>
         length iv = 16 \<Longrightarrow> length src mod 16 = 0 \<Longrightarrow>
         cbc_decrypt_blocks D iv (cbc_encrypt_blocks E iv src) = src \<and>
         length (cbc_encrypt_blocks E iv src) = length src"
proof (induction E iv src rule: cbc_encrypt_blocks.induct)
  case (1 E iv src)
  show ?case
  proof (cases "length src > 0")
    case False
    then show ?thesis
      by (simp add: cbc_encrypt_blocks.simps cbc_decrypt_blocks.simps)
  next
    case True
    have len: "length src \<ge> 16" using True "1.prems"(3) by presburger
    let ?b = "xor_bytes (take BlockSize src) iv"
    let ?c = "E ?b"
    have lb: "length ?b = 16" using len "1.prems"(2) by (simp add: length_xor_bytes BlockSize_def)
    have lc: "length ?c = 16" and dc: "D ?c = ?b" using "1.prems"(1) lb by blast+
    have "(length src - 16) mod 16 = 0" using "1.prems"(3) len by presburger
    then have rest: "length (drop BlockSize src) mod 16 = 0" by (simp add: BlockSize_def)
    have enc: "cbc_encrypt_blocks E iv src = ?c @ cbc_encrypt_blocks E ?c (drop BlockSize src)"
      using True by (subst cbc_encrypt_blocks.simps) (simp add: Let_def)
    have IH: "cbc_decrypt_blocks D ?c (cbc_encrypt_blocks E ?c (drop BlockSize src)) = drop BlockSize src"
         "length (cbc_encrypt_blocks E ?c (drop BlockSize src)) = length (drop BlockSize src)"
      using "1.IH" [OF True refl "1.prems"(1) lc rest] by blast+
    have "cbc_decrypt_blocks D iv (?c @ cbc_encrypt_blocks E ?c (drop BlockSize src))
            = xor_bytes (D ?c) iv @ cbc_decrypt_blocks D ?c (cbc_encrypt_blocks E ?c (drop BlockSize src))"
      using lc by (subst cbc_decrypt_blocks.simps) (simp add: BlockSize_def)
    also have "\<dots> = take BlockSize src @ drop BlockSize src"
      using dc IH(1) xor_bytes_cancel [of "take BlockSize src" iv] len "1.prems"(2)
      by (simp add: BlockSize_def)
    finally have "cbc_decrypt_blocks D iv (cbc_encrypt_blocks E iv src) = src"
      by (simp add: enc)
    moreover have "length (cbc_encrypt_blocks E iv src) = length src"
      using enc lc IH(2) len by (simp add: BlockSize_def)
    ultimately show ?thesis by simp
  qed
qed

subsection \<open>The sample primitives\<close>

lemma sample_ok: "primitives_ok sample"
  by (simp add: primitives_ok_def sample_def xor_bytes_cancel length_xor_bytes)

subsection \<open>Key derivation and encoding\<close>

lemma keyIV_eq:
  "keyIV P s = (upper_hex (take 8 (md5_Sum P (magicWord @ Hex s))),
                upper_hex (drop 8 (md5_Sum P (magicWord @ Hex s))))"
  by (simp add: keyIV_def Let_def ToUpper_hex)

lemma keyIV_lengths:
  "primitives_ok P \<Longrightarrow> length (fst (keyIV P s)) = 16 \<and> length (snd (keyIV P s)) = 16"
  by (simp add: keyIV_eq length_upper_hex primitives_ok_def)

lemma pad_len_cases:
  "(length msg mod 16 = 0 \<and> pad_len msg = 0) \<or>
   (0 < length msg mod 16 \<and> pad_len msg = 16 - length msg mod 16)"
proof -
  have "length msg mod 16 < 16" by simp
  then show ?thesis by (cases "length msg mod 16 = 0") (simp_all add: pad_len_def)
qed

lemma pad_len_less: "pad_len msg < 16"
  by (simp add: pad_len_def)

lemma length_padded: "length (padded msg) mod 16 = 0"
proof -
  have "(length msg + pad_len msg) mod 16 = 0"
  proof (cases "length msg mod 16 = 0")
    case True
    then show ?thesis using pad_len_cases [of msg] by simp
  next
    case False
    then have p: "pad_len msg = 16 - length msg mod 16" using pad_len_cases [of msg] by simp
    have lt: "length msg mod 16 < 16" by simp
    have "(length msg + pad_len msg) mod 16 = (length msg mod 16 + pad_len msg) mod 16"
      by (simp add: mod_add_left_eq)
    also have "length msg mod 16 + pad_len msg = 16" using p lt by simp
    finally show ?thesis by simp
  qed
  then show ?thesis by (simp add: padded_def)
qed

lemma Encrypt_eq:
  assumes "primitives_ok P" "length data mod 16 = 0"
  shows "Encrypt P s data =
           Inr (cbc_encrypt_blocks (aes_Encrypt P (fst (keyIV P s))) (snd (keyIV P s)) data)"
proof -
  obtain key iv where kv: "keyIV P s = (key, iv)" by (cases "keyIV P s")
  have "length key = 16" "length iv = 16"
    using keyIV_lengths [OF assms(1), of s] by (simp_all add: kv)
  then show ?thesis
    using assms(2)
    by (simp add: Encrypt_def kv aes_NewCipher_def cbc_CryptBlocks_def BlockSize_def)
qed

lemma Decrypt_eq:
  assumes "primitives_ok P" "length data mod 16 = 0"
  shows "Decrypt P s data =
           Inr (cbc_decrypt_blocks (aes_Decrypt P (fst (keyIV P s))) (snd (keyIV P s)) data)"
proof -
  obtain key iv where kv: "keyIV P s = (key, iv)" by (cases "keyIV P s")
  have "length key = 16" "length iv = 16"
    using keyIV_lengths [OF assms(1), of s] by (simp_all add: kv)
  then show ?thesis
    using assms(2)
    by (simp add: Decrypt_def kv aes_NewCipher_def cbc_CryptBlocks_def BlockSize_def)
qed

lemma EncodeMessage_eq:
  assumes "primitives_ok P" "msg \<noteq> []"
  shows "EncodeMessage P s msg =
           Inr (Hex s
                @ upper_hex (cbc_encrypt_blocks (aes_Encrypt P (fst (keyIV P s))) (snd (keyIV P s)) (padded msg))
                @ upper_hex (sha256_Sum256 P
                    (Hex s @ upper_hex (cbc_encrypt_blocks (aes_Encrypt P (fst (keyIV P s)))
                                          (snd (keyIV P s)) (padded msg)))))"
proof -
  have pad: "append_padding 0 ((16 - length msg mod 16) mod 16) msg = padded msg"
    by (simp add: append_padding_eq padded_def pad_len_def)
  show ?thesis
    using assms(2) Encrypt_eq [OF assms(1) length_padded, of s msg]
    by (simp add: EncodeMessage_def Let_def pad ToUpper_hex)
qed

text \<open>
  C3. With a 16-byte MD5 digest of the 8-byte magic word followed by the 8-character
  form of the session, the key is the upper-case hexadecimal text of the first 8 digest
  bytes and the IV that of the last 8 digest bytes; each is 16 characters long.
\<close>

theorem keyIV_derivation:
  "primitives_ok P \<Longrightarrow>
   (let digest = md5_Sum P (magicWord @ Hex s)
    in keyIV P s = (upper_hex (take 8 digest), upper_hex (drop (length digest - 8) digest)))
   \<and> length (fst (keyIV P s)) = 16 \<and> length (snd (keyIV P s)) = 16
   \<and> length magicWord = 8 \<and> length (Hex s) = 8"
proof -
  assume ok: "primitives_ok P"
  then have "length (md5_Sum P (magicWord @ Hex s)) = 16" by (simp add: primitives_ok_def)
  then show ?thesis
    using keyIV_lengths [OF ok, of s]
    by (simp add: Let_def keyIV_eq length_Hex magicWord_def bytes_def)
qed

theorem keyIV_derivation_witness:
  "primitives_ok sample \<and>
   keyIV sample 0xB = (upper_hex (take 8 (md5_Sum sample (magicWord @ Hex 0xB))),
                       upper_hex (drop (length (md5_Sum sample (magicWord @ Hex 0xB)) - 8)
                                    (md5_Sum sample (magicWord @ Hex 0xB))))
   \<and> length (fst (keyIV sample 0xB)) = 16 \<and> length (snd (keyIV sample 0xB)) = 16"
  using keyIV_derivation [OF sample_ok, of "0xB", unfolded Let_def] sample_ok by blast

text \<open>
  C4. \<open>EncodeMessage\<close> fails exactly on the empty plaintext, and then with the format
  error "too few bytes". On any other plaintext it returns the frame made of the session's
  8 characters, the upper-case hexadecimal text of the CBC encryption (under the session's
  key and IV) of the plaintext followed by \<open>pad = (16 - len mod 16) mod 16\<close> bytes of
  value \<open>pad\<close>, and the upper-case hexadecimal text of the SHA-256 digest of those
  characters.
\<close>

theorem EncodeMessage_frame:
  "primitives_ok P \<Longrightarrow>
   EncodeMessage P s msg =
     (if msg = [] then Inl ErrTooFewBytes
      else (let (key, iv) = keyIV P s;
                ciphertext = cbc_encrypt_blocks (aes_Encrypt P key) iv (padded msg);
                text = Hex s @ upper_hex ciphertext
            in Inr (text @ upper_hex (sha256_Sum256 P text))))
   \<and> ((\<exists>e. EncodeMessage P s msg = Inl e \<and> is_FormatError e) \<longleftrightarrow> msg = [])
   \<and> ((\<exists>e. EncodeMessage P s msg = Inl e) \<longleftrightarrow> msg = [])"
proof (cases "msg = []")
  case True
  then show ?thesis by (simp add: EncodeMessage_def)
next
  case False
  assume ok: "primitives_ok P"
  obtain key iv where kv: "keyIV P s = (key, iv)" by (cases "keyIV P s")
  have "EncodeMessage P s msg =
          Inr (Hex s @ upper_hex (cbc_encrypt_blocks (aes_Encrypt P key) iv (padded msg))
               @ upper_hex (sha256_Sum256 P
                   (Hex s @ upper_hex (cbc_encrypt_blocks (aes_Encrypt P key) iv (padded msg)))))"
    using EncodeMessage_eq [OF ok False, of s] by (simp add: kv)
  then show ?thesis using False by (simp add: kv Let_def)
qed

theorem EncodeMessage_frame_witness:
  "primitives_ok sample \<and>
   EncodeMessage sample 0xB [0x7B, 0x7D] =
     (let (key, iv) = keyIV sample 0xB;
          ciphertext = cbc_encrypt_blocks (aes_Encrypt sample key) iv (padded [0x7B, 0x7D]);
          text = Hex 0xB @ upper_hex ciphertext
      in Inr (text @ upper_hex (sha256_Sum256 sample text)))"
proof -
  have "[0x7B, 0x7D] \<noteq> ([] :: byte list)" by simp
  then show ?thesis
    using EncodeMessage_frame [OF sample_ok, of "0xB" "[0x7B, 0x7D]"] sample_ok
    by (simp only: if_False)
qed

subsection \<open>Decoding an encoded frame\<close>

lemma udigits_valid: "\<forall>c\<in>set udigits. fromHexChar c \<noteq> None"
  by (simp add: udigits_def bytes_def byte_of_char_def fromHexChar_def)

lemma Hex_decodes: "\<exists>d. hex_DecodeString (Hex s) = Inr d \<and> length d = 4"
proof -
  have "\<forall>c\<in>set (Hex s). fromHexChar c \<noteq> None" using set_Hex [of s] udigits_valid by blast
  moreover have "even (length (Hex s))" by (simp add: length_Hex)
  ultimately show ?thesis using hex_Decode_even [of "Hex s"] by (simp add: length_Hex)
qed

lemma ParseID_Hex_prefix: "ParseID (Hex s @ rest) = s"
proof -
  have "ParseID (Hex s @ rest) = ParseID (take 8 (Hex s @ rest))" by (rule ParseID_take)
  also have "take 8 (Hex s @ rest) = Hex s" by (simp add: length_Hex)
  finally show ?thesis by (simp add: ParseID_Hex_eq)
qed

lemma DecodeMessage_frame:
  assumes ok: "primitives_ok P" and ct: "length ct mod 16 = 0" and sfx: "length sfx = 32"
  shows "DecodeMessage P (Hex s @ upper_hex ct @ upper_hex sfx) =
           Inr (strip_padding
                  (cbc_decrypt_blocks (aes_Decrypt P (fst (keyIV P s))) (snd (keyIV P s)) ct))"
proof -
  obtain d where d: "hex_DecodeString (Hex s) = Inr d" "length d = 4"
    using Hex_decodes by blast
  have "hex_DecodeString (upper_hex sfx @ []) = Inr (sfx @ [])"
    by (subst hex_Decode_upper_hex) simp
  then have "hex_DecodeString (upper_hex ct @ upper_hex sfx) = Inr (ct @ sfx)"
    by (simp add: hex_Decode_upper_hex)
  then have dec: "hex_DecodeString (Hex s @ upper_hex ct @ upper_hex sfx) = Inr (d @ ct @ sfx)"
    using hex_Decode_append [OF d(1)] by simp
  have sess: "ParseID (Hex s @ upper_hex ct @ upper_hex sfx) = s" by (rule ParseID_Hex_prefix)
  show ?thesis
    using d(2) sfx Decrypt_eq [OF ok ct, of s]
    by (simp add: DecodeMessage_def Let_def dec sess checksumLen_def)
qed

lemma roundtrip_general:
  assumes ok: "primitives_ok P" and ne: "msg \<noteq> []"
  shows "roundtrip P s msg = Inr (strip_padding (padded msg))"
proof -
  let ?key = "fst (keyIV P s)" and ?iv = "snd (keyIV P s)"
  let ?ct = "cbc_encrypt_blocks (aes_Encrypt P ?key) ?iv (padded msg)"
  have kl: "length ?key = 16" "length ?iv = 16" using keyIV_lengths [OF ok] by blast+
  have blk: "\<forall>b. length b = 16 \<longrightarrow>
               length (aes_Encrypt P ?key b) = 16 \<and> aes_Decrypt P ?key (aes_Encrypt P ?key b) = b"
    using ok kl(1) by (simp add: primitives_ok_def)
  have rt: "cbc_decrypt_blocks (aes_Decrypt P ?key) ?iv ?ct = padded msg"
       "length ?ct = length (padded msg)"
    using cbc_roundtrip [OF blk kl(2) length_padded] by blast+
  have ctl: "length ?ct mod 16 = 0" using rt(2) length_padded by simp
  have sl: "length (sha256_Sum256 P (Hex s @ upper_hex ?ct)) = 32"
    using ok by (simp add: primitives_ok_def)
  show ?thesis
    using DecodeMessage_frame [OF ok ctl sl, of s] rt(1)
    by (simp add: roundtrip_def EncodeMessage_eq [OF ok ne])
qed

lemma pad_byte_range:
  assumes "0 < p" "p < 16"
  shows "1 \<le> (of_nat p :: byte) \<and> (of_nat p :: byte) \<le> 16"
proof -
  have "unat (of_nat p :: byte) = p" using assms(2) by (simp add: unat_of_nat)
  then show ?thesis using assms by (simp add: word_le_nat_alt)
qed

lemma strip_padded:
  assumes "msg \<noteq> []" "\<not> (1 \<le> last msg \<and> last msg \<le> 16)"
  shows "strip_padding (padded msg) = msg"
proof -
  have keep: "strip_padding msg = msg"
    using assms by (intro strip_padding_keeps) (auto simp: not_le)
  show ?thesis
  proof (cases "pad_len msg = 0")
    case True
    then show ?thesis using keep by (simp add: padded_def)
  next
    case False
    then have "1 \<le> (of_nat (pad_len msg) :: byte) \<and> (of_nat (pad_len msg) :: byte) \<le> 16"
      using pad_byte_range [of "pad_len msg"] pad_len_less [of msg] by simp
    then show ?thesis using keep by (simp add: padded_def strip_padding_replicate)
  qed
qed

text \<open>
  C1, as amended. For every session and every non-empty plaintext whose last byte is not
  between 1 and 16, decoding the encoded frame gives the plaintext back. (A JSON payload
  ends in a closing brace, so the payloads the client sends are of this kind.)
\<close>

theorem roundtrip_unpadded_tail:
  "primitives_ok P \<Longrightarrow> msg \<noteq> [] \<Longrightarrow> \<not> (1 \<le> last msg \<and> last msg \<le> 16) \<Longrightarrow>
   roundtrip P s msg = Inr msg"
  by (simp add: roundtrip_general strip_padded)

theorem roundtrip_unpadded_tail_witness:
  "primitives_ok sample \<and> [0x7B, 0x7D] \<noteq> ([] :: byte list)
   \<and> \<not> (1 \<le> last [0x7B, 0x7D :: byte] \<and> last [0x7B, 0x7D :: byte] \<le> 16)
   \<and> roundtrip sample 0xB [0x7B, 0x7D] = Inr [0x7B, 0x7D]"
  using roundtrip_unpadded_tail [OF sample_ok, of "[0x7B, 0x7D]" "0xB"] sample_ok
  by simp

text \<open>
  C1, as stated, fails: the decoder cuts off every trailing byte between 1 and 16, not
  only the padding. The one-byte plaintext 0x01 is padded with fifteen bytes 0x0F, and
  decoding strips all sixteen bytes: the result is the empty plaintext. By
  \<open>roundtrip_general\<close> the outcome is the same under every implementation of the
  primitives that satisfies \<open>primitives_ok\<close>.
\<close>

theorem roundtrip_counterexample:
  "primitives_ok sample \<and> [0x01] \<noteq> ([] :: byte list)
   \<and> roundtrip sample 0 [0x01] = Inr [] \<and> roundtrip sample 0 [0x01] \<noteq> Inr [0x01]"
proof -
  have "pad_len [0x01 :: byte] = 15" by (simp add: pad_len_def)
  then have "padded [0x01] = [] @ [0x01] @ replicate 15 15" by (simp add: padded_def)
  then have "strip_padding (padded [0x01]) = strip_padding ([] @ [0x01])"
    using strip_padding_replicate [of 15 "[] @ [0x01]" 15] by simp
  also have "\<dots> = []" by (simp only: strip_padding_snoc) (simp add: strip_padding_Nil)
  finally have "roundtrip sample 0 [0x01] = Inr []"
    using roundtrip_general [OF sample_ok, of "[0x01]" 0] by simp
  then show ?thesis using sample_ok by simp
qed

subsection \<open>What the decoder does with a frame\<close>

lemma hex_Decode_zeros: "hex_DecodeString (replicate (2 * n) 0x30) = Inr (replicate n 0)"
  by (induction n) (simp_all add: fromHexChar_def)

lemma Decrypt_Nil: "primitives_ok P \<Longrightarrow> Decrypt P s [] = Inr []"
  by (simp add: Decrypt_eq cbc_decrypt_blocks.simps)

text \<open>
  C5, as stated, fails. The claim hex-decodes the remainder of the frame after the 8
  session characters, asks for at least 4 + 32 bytes from it and drops 4 more bytes as an
  unused field. The source hex-decodes the whole frame, session characters included, and
  the 4 bytes it drops are those of the session prefix. A frame of 72 characters "0"
  (8 for the session, 64 for the checksum, no ciphertext) is accepted by the source, with
  the empty plaintext, where the claim says it is rejected as too short.
\<close>

theorem DecodeMessage_remainder_counterexample:
  "DecodeMessage sample (replicate 72 0x30) = Inr [] \<and>
   DecodeMessage_by_remainder sample (replicate 72 0x30) = Inl ErrTooFewBytes"
proof -
  have a: "hex_DecodeString (replicate 72 0x30) = Inr (replicate 36 0)"
    using hex_Decode_zeros [of 36] by simp
  have b: "hex_DecodeString (replicate 64 0x30) = Inr (replicate 32 0)"
    using hex_Decode_zeros [of 32] by simp
  have "DecodeMessage sample (replicate 72 0x30) = Inr []"
    by (simp add: DecodeMessage_def Let_def a checksumLen_def Decrypt_Nil [OF sample_ok]
        strip_padding_Nil)
  moreover have "DecodeMessage_by_remainder sample (replicate 72 0x30) = Inl ErrTooFewBytes"
    by (simp add: DecodeMessage_by_remainder_def Let_def b)
  ultimately show ?thesis by simp
qed

lemma DecodeMessage_fields:
  assumes ok: "primitives_ok P"
    and dec: "hex_DecodeString msg = Inr (prefix @ ct @ suffix)"
    and len: "length prefix = 4" "length suffix = 32" "length ct mod 16 = 0"
  shows "hex_DecodeString (take 8 msg) = Inr prefix"
    and "DecodeMessage P msg =
           Inr (stripped (cbc_decrypt_blocks (aes_Decrypt P (fst (keyIV P (ParseID (take 8 msg)))))
                            (snd (keyIV P (ParseID (take 8 msg)))) ct))"
proof -
  show "hex_DecodeString (take 8 msg) = Inr prefix"
    using hex_Decode_take [OF dec, of 4] len(1) by simp
  have sess: "ParseID msg = ParseID (take 8 msg)" by (rule ParseID_take)
  show "DecodeMessage P msg =
           Inr (stripped (cbc_decrypt_blocks (aes_Decrypt P (fst (keyIV P (ParseID (take 8 msg)))))
                            (snd (keyIV P (ParseID (take 8 msg)))) ct))"
    using len Decrypt_eq [OF ok len(3), of "ParseID (take 8 msg)"]
    by (simp add: DecodeMessage_def Let_def dec checksumLen_def strip_padding_stripped flip: sess)
qed

text \<open>
  C5, as amended. \<open>DecodeMessage\<close> hex-decodes the whole frame. A frame that is not
  hexadecimal text, or that gives fewer than 4 + 32 bytes, is a format error. Otherwise
  the bytes are a 4-byte prefix, a ciphertext and a 32-byte suffix: the prefix is what
  the first 8 characters of the frame decode to (the session prefix itself), the suffix
  is not looked at, and when the ciphertext is a whole number of 16-byte blocks the
  result is its CBC decryption under the key and IV of the session parsed from the first
  8 characters, without its trailing run of bytes between 1 and 16.
\<close>

theorem DecodeMessage_whole_frame:
  "primitives_ok P \<Longrightarrow>
   (\<forall>e. hex_DecodeString msg = Inl e \<longrightarrow> DecodeMessage P msg = Inl (ErrDecodingHex e)) \<and>
   (\<forall>data. hex_DecodeString msg = Inr data \<and> length data < 4 + 32 \<longrightarrow>
      DecodeMessage P msg = Inl ErrTooFewBytes) \<and>
   (\<forall>prefix ct suffix.
      hex_DecodeString msg = Inr (prefix @ ct @ suffix) \<and>
      length prefix = 4 \<and> length suffix = 32 \<and> length ct mod 16 = 0 \<longrightarrow>
      hex_DecodeString (take 8 msg) = Inr prefix \<and>
      DecodeMessage P msg =
        Inr (stripped (cbc_decrypt_blocks (aes_Decrypt P (fst (keyIV P (ParseID (take 8 msg)))))
                         (snd (keyIV P (ParseID (take 8 msg)))) ct)))"
proof (intro conjI allI impI)
  fix e assume "hex_DecodeString msg = Inl e"
  then show "DecodeMessage P msg = Inl (ErrDecodingHex e)"
    by (simp add: DecodeMessage_def Let_def)
next
  fix data assume "hex_DecodeString msg = Inr data \<and> length data < 4 + 32"
  then show "DecodeMessage P msg = Inl ErrTooFewBytes"
    by (simp add: DecodeMessage_def Let_def checksumLen_def)
next
  fix prefix ct suffix
  assume ok: "primitives_ok P"
    and h: "hex_DecodeString msg = Inr (prefix @ ct @ suffix) \<and>
            length prefix = 4 \<and> length suffix = 32 \<and> length ct mod 16 = 0"
  from h have "hex_DecodeString msg = Inr (prefix @ ct @ suffix)" "length prefix = 4"
    "length suffix = 32" "length ct mod 16 = 0" by simp_all
  then show "hex_DecodeString (take 8 msg) = Inr prefix"
    by (rule DecodeMessage_fields(1) [OF ok])
next
  fix prefix ct suffix
  assume ok: "primitives_ok P"
    and h: "hex_DecodeString msg = Inr (prefix @ ct @ suffix) \<and>
            length prefix = 4 \<and> length suffix = 32 \<and> length ct mod 16 = 0"
  from h have "hex_DecodeString msg = Inr (prefix @ ct @ suffix)" "length prefix = 4"
    "length suffix = 32" "length ct mod 16 = 0" by simp_all
  then show "DecodeMessage P msg =
        Inr (stripped (cbc_decrypt_blocks (aes_Decrypt P (fst (keyIV P (ParseID (take 8 msg)))))
                         (snd (keyIV P (ParseID (take 8 msg)))) ct))"
    by (rule DecodeMessage_fields(2) [OF ok])
qed

theorem DecodeMessage_whole_frame_witness:
  "primitives_ok sample \<and>
   hex_DecodeString (upper_hex ([0, 0, 0, 0x0B] @ replicate 16 0x41 @ replicate 32 0))
     = Inr ([0, 0, 0, 0x0B] @ replicate 16 0x41 @ replicate 32 0) \<and>
   hex_DecodeString (take 8 (upper_hex ([0, 0, 0, 0x0B] @ replicate 16 0x41 @ replicate 32 0)))
     = Inr [0, 0, 0, 0x0B] \<and>
   DecodeMessage sample (upper_hex ([0, 0, 0, 0x0B] @ replicate 16 0x41 @ replicate 32 0)) =
     Inr (stripped (cbc_decrypt_blocks
            (aes_Decrypt sample (fst (keyIV sample (ParseID (take 8
               (upper_hex ([0, 0, 0, 0x0B] @ replicate 16 0x41 @ replicate 32 0)))))))
            (snd (keyIV sample (ParseID (take 8
               (upper_hex ([0, 0, 0, 0x0B] @ replicate 16 0x41 @ replicate 32 0))))))
            (replicate 16 0x41)))"
proof -
  let ?m = "upper_hex ([0, 0, 0, 0x0B] @ replicate 16 0x41 @ replicate 32 0)"
  have d: "hex_DecodeString ?m = Inr ([0, 0, 0, 0x0B] @ replicate 16 0x41 @ replicate 32 0)"
    using hex_Decode_upper_hex [of "[0, 0, 0, 0x0B] @ replicate 16 0x41 @ replicate 32 0" "[]"]
    by simp
  have l: "length [0, 0, 0, 0x0B :: byte] = 4" "length (replicate 32 (0 :: byte)) = 32"
    "length (replicate 16 (0x41 :: byte)) mod 16 = 0" by simp_all
  note T = DecodeMessage_whole_frame [OF sample_ok, of ?m, THEN conjunct2, THEN conjunct2,
      rule_format, of "[0, 0, 0, 0x0B]" "replicate 16 0x41" "replicate 32 0"]
  have "hex_DecodeString (take 8 ?m) = Inr [0, 0, 0, 0x0B] \<and>
        DecodeMessage sample ?m =
          Inr (stripped (cbc_decrypt_blocks
                 (aes_Decrypt sample (fst (keyIV sample (ParseID (take 8 ?m)))))
                 (snd (keyIV sample (ParseID (take 8 ?m)))) (replicate 16 0x41)))"
    by (rule T) (intro conjI d l)
  then show ?thesis using d sample_ok by (intro conjI) (simp_all only: simp_thms)
qed

text \<open>
  C7. Two frames that differ only in their last 64 characters, both times hexadecimal
  digits, are decoded to the same result (the same plaintext, or the same failure): the
  checksum has no influence.
\<close>

theorem checksum_not_verified:
  "length c1 = 64 \<Longrightarrow> length c2 = 64 \<Longrightarrow>
   \<forall>c\<in>set c1. fromHexChar c \<noteq> None \<Longrightarrow> \<forall>c\<in>set c2. fromHexChar c \<noteq> None \<Longrightarrow>
   DecodeMessage P (body @ c1) = DecodeMessage P (body @ c2)"
proof -
  assume l1: "length c1 = 64" and l2: "length c2 = 64"
    and v1: "\<forall>c\<in>set c1. fromHexChar c \<noteq> None" and v2: "\<forall>c\<in>set c2. fromHexChar c \<noteq> None"
  obtain d1 where d1: "hex_DecodeString c1 = Inr d1" "length d1 = 32"
    using hex_Decode_even [OF v1] l1 by auto
  obtain d2 where d2: "hex_DecodeString c2 = Inr d2" "length d2 = 32"
    using hex_Decode_even [OF v2] l2 by auto
  note e1 = hex_Decode_suffix [OF v1 d1(1), of body]
  note e2 = hex_Decode_suffix [OF v2 d2(1), of body]
  show ?thesis
  proof (cases "hex_DecodeString body")
    case (Inl e)
    then show ?thesis by (simp add: DecodeMessage_def Let_def e1 e2)
  next
    case (Inr a)
    show ?thesis
    proof (cases "length a < 4")
      case True
      then show ?thesis using d1(2) d2(2) by (simp add: DecodeMessage_def Let_def e1 e2 Inr checksumLen_def)
    next
      case False
      have "length body = 2 * length a" using hex_Decode_length [OF Inr] .
      then have lb: "8 \<le> length body" using False by simp
      have "ParseID (body @ c1) = ParseID (take 8 (body @ c1))"
           "ParseID (body @ c2) = ParseID (take 8 (body @ c2))" by (rule ParseID_take)+
      then have p: "ParseID (body @ c1) = ParseID (body @ c2)" using lb by simp
      show ?thesis using False d1(2) d2(2)
        by (simp add: DecodeMessage_def Let_def e1 e2 Inr checksumLen_def p)
    qed
  qed
qed

theorem checksum_not_verified_witness:
  "DecodeMessage sample ((Hex 0xB @ upper_hex (replicate 16 0x41)) @ replicate 64 0x30)
     = DecodeMessage sample ((Hex 0xB @ upper_hex (replicate 16 0x41)) @ replicate 64 0x46)"
  using checksum_not_verified [of "replicate 64 0x30" "replicate 64 0x46" sample
      "Hex 0xB @ upper_hex (replicate 16 0x41)"]
  by (simp add: fromHexChar_def)

subsection \<open>The session counter of a device\<close>

lemma Set_sid:
  "sid (snd (Set P x d)) = (if answered P x (sid d) then sid d + 1 else sid d)"
  by (auto simp: answered_def Set_def Increment_def Let_def split: sum.splits)

text \<open>
  What \<open>Set\<close> does to the session over a sequence of calls: the session ends at its
  start value plus the number of calls that got a response, whatever the acknowledgements
  said. A call whose post returns an error does not count.
\<close>

lemma exact_counter:
  "sid (Sets P xs d) = sid d + of_nat (n_answered P xs (sid d))"
proof (induction xs arbitrary: d)
  case Nil
  show ?case by simp
next
  case (Cons x xs)
  show ?case
  proof (cases "answered P x (sid d)")
    case True
    then have "sid (snd (Set P x d)) = sid d + 1" by (simp add: Set_sid)
    then show ?thesis using True Cons.IH [of "snd (Set P x d)"] by simp
  next
    case False
    then have "sid (snd (Set P x d)) = sid d" by (simp add: Set_sid)
    then show ?thesis using False Cons.IH [of "snd (Set P x d)"] by simp
  qed
qed

lemma New_session:
  "New dial sync = Inr d \<Longrightarrow> \<exists>payload. sync = Inr payload \<and> sid d = ParseID payload + 1"
  by (auto simp: New_def Increment_def split: option.splits sum.splits)

lemma ParseID_0000000A: "ParseID (bytes ''0000000A'') = 0xA"
  by (simp add: ParseID_def ParseUint_def bytes_def byte_of_char_def digit_value_def lower_def
      cutoff_def maxVal_def)

lemma sample_encodes: "\<exists>frame. EncodeMessage sample s (bytes ''{}'') = Inr frame"
  by (simp add: EncodeMessage_eq [OF sample_ok] bytes_def)

lemma answered_samples:
  "answered sample ack_success s" "answered sample ack_failed s"
  "answered sample ack_garbled s" "\<not> answered sample post_fails s"
  using sample_encodes [of s]
  by (auto simp: answered_def ack_success_def ack_failed_def ack_garbled_def post_fails_def)

text \<open>
  C2 says that every call of \<open>Set\<close>, failed or not, moves the session on by one, so
  that after N calls it is the start value plus N. \<open>Device.Set\<close> does not do this for a
  call whose post to the control endpoint returns an error: it returns that error before
  the increment, although the command may have reached the device. After a handshake
  answered with 0000000A the session is 0000000B; a call whose post fails returns the
  transport error and leaves the session at 0000000B; and after four calls, one of them
  with a failed post, the session is 0000000E, not 0000000F. The older client in main.go
  increments before it posts and so moves on whatever the post returns.
\<close>

theorem Set_failed_post_keeps_session:
  "New None (Inr (bytes ''0000000A'')) = Inr \<lparr>sid = 0xB\<rparr> \<and>
   Set sample post_fails \<lparr>sid = 0xB\<rparr> = (Some ErrTransport, \<lparr>sid = 0xB\<rparr>) \<and>
   sid (Sets sample [ack_success, post_fails, ack_failed, ack_garbled] \<lparr>sid = 0xB\<rparr>) = 0xE"
proof -
  have n: "New None (Inr (bytes ''0000000A'')) = Inr \<lparr>sid = 0xB\<rparr>"
    by (simp add: New_def Increment_def ParseID_0000000A)
  obtain frame where "EncodeMessage sample 0xB (bytes ''{}'') = Inr frame"
    using sample_encodes by blast
  then have p: "Set sample post_fails \<lparr>sid = 0xB\<rparr> = (Some ErrTransport, \<lparr>sid = 0xB\<rparr>)"
    by (simp add: Set_def post_fails_def)
  have "n_answered sample [ack_success, post_fails, ack_failed, ack_garbled] 0xB = 3"
    by (simp add: answered_samples)
  then have "sid (Sets sample [ack_success, post_fails, ack_failed, ack_garbled] \<lparr>sid = 0xB\<rparr>)
               = 0xB + of_nat 3"
    using exact_counter [of sample "[ack_success, post_fails, ack_failed, ack_garbled]"
        "\<lparr>sid = 0xB\<rparr>"] by simp
  then show ?thesis using n p by simp
qed

end
